theory Spec2Isabelle
  imports Complex_Main "HOL-Library.Sublist" "HOL-Library.Multiset"
begin

section \<open>Python values, strings and lists\<close>

text \<open>
  A \<^typ>\<open>char\<close> stands for one code point below 256.  Python floats are modelled by
  exact reals: only the order of distances matters below, never their rounding.
\<close>

datatype pyval = VNone | VStr string | VInt int | VFloat real

datatype error =
    RuntimeError | ValueError | IndexError | AttributeError | AssertionError
  | EmbeddingError | TranscriptionError | OSError

text \<open>Truth value of a Python object, as \<^verbatim>\<open>x or y\<close> tests it.\<close>

fun truthy :: "pyval \<Rightarrow> bool" where
  "truthy VNone = False"
| "truthy (VStr s) = (s \<noteq> [])"
| "truthy (VInt n) = (n \<noteq> 0)"
| "truthy (VFloat x) = (x \<noteq> 0)"

definition py_or :: "pyval \<Rightarrow> pyval \<Rightarrow> pyval" where
  "py_or x y = (if truthy x then x else y)"

text \<open>\<^verbatim>\<open>x or default\<close> for an optional integer and an optional string argument.\<close>

definition or_int :: "int option \<Rightarrow> int \<Rightarrow> int" where
  "or_int x dflt = (case x of None \<Rightarrow> dflt | Some v \<Rightarrow> if v = 0 then dflt else v)"

definition or_str :: "string option \<Rightarrow> string \<Rightarrow> string" where
  "or_str x dflt = (case x of None \<Rightarrow> dflt | Some v \<Rightarrow> if v = [] then dflt else v)"

text \<open>The characters \<^verbatim>\<open>str.isspace\<close> accepts (and the regex class \<^verbatim>\<open>\s\<close> matches).\<close>

definition isspace :: "char \<Rightarrow> bool" where
  "isspace c = (c \<in> set [CHR 0x09, CHR 0x0A, CHR 0x0B, CHR 0x0C, CHR 0x0D, CHR 0x1C,
     CHR 0x1D, CHR 0x1E, CHR 0x1F, CHR 0x20, CHR 0x85, CHR 0xA0])"

text \<open>\<^verbatim>\<open>s.split()\<close>: the maximal runs of non-whitespace characters.\<close>

fun split_acc :: "string \<Rightarrow> string \<Rightarrow> string list" where
  "split_acc cur [] = (if cur = [] then [] else [cur])"
| "split_acc cur (c # cs) =
     (if isspace c then (if cur = [] then split_acc [] cs else cur # split_acc [] cs)
      else split_acc (cur @ [c]) cs)"

definition str_split :: "string \<Rightarrow> string list" where
  "str_split s = split_acc [] s"

text \<open>\<^verbatim>\<open>s.strip()\<close>.\<close>

definition str_strip :: "string \<Rightarrow> string" where
  "str_strip s = rev (dropWhile isspace (rev (dropWhile isspace s)))"

text \<open>\<^verbatim>\<open>sep.join(xs)\<close>.\<close>

fun str_join :: "string \<Rightarrow> string list \<Rightarrow> string" where
  "str_join sep [] = []"
| "str_join sep [x] = x"
| "str_join sep (x # y # ys) = x @ sep @ str_join sep (y # ys)"

text \<open>\<^verbatim>\<open>s.splitlines()\<close>: a carriage return followed by a line feed is one break,
  and a final break opens no empty last line.\<close>

definition is_linebreak :: "char \<Rightarrow> bool" where
  "is_linebreak c = (c \<in> set [CHR 0x0A, CHR 0x0B, CHR 0x0C, CHR 0x0D, CHR 0x1C,
     CHR 0x1D, CHR 0x1E, CHR 0x85])"

fun splitlines_acc :: "string \<Rightarrow> string \<Rightarrow> string list" where
  "splitlines_acc cur [] = (if cur = [] then [] else [cur])"
| "splitlines_acc cur [c] = (if is_linebreak c then [cur] else [cur @ [c]])"
| "splitlines_acc cur (c # d # cs) =
     (if c = CHR 0x0D \<and> d = CHR 0x0A then cur # splitlines_acc [] cs
      else if is_linebreak c then cur # splitlines_acc [] (d # cs)
      else splitlines_acc (cur @ [c]) (d # cs))"

definition str_splitlines :: "string \<Rightarrow> string list" where
  "str_splitlines s = splitlines_acc [] s"

text \<open>\<^verbatim>\<open>s.split('\n\n')\<close>: the pieces between non-overlapping blank-line separators,
  found left to right.\<close>

fun split_nn_acc :: "string \<Rightarrow> string \<Rightarrow> string list" where
  "split_nn_acc cur [] = [cur]"
| "split_nn_acc cur [c] = [cur @ [c]]"
| "split_nn_acc cur (c # d # cs) =
     (if c = CHR 0x0A \<and> d = CHR 0x0A then cur # split_nn_acc [] cs
      else split_nn_acc (cur @ [c]) (d # cs))"

definition str_split_nn :: "string \<Rightarrow> string list" where
  "str_split_nn s = split_nn_acc [] s"

text \<open>\<^verbatim>\<open>xs[a:b]\<close> with Python's rules: a negative bound counts from the end, and both
  bounds are clamped to the list.\<close>

definition py_slice :: "'a list \<Rightarrow> int \<Rightarrow> int \<Rightarrow> 'a list" where
  "py_slice xs a b =
     (let n = int (length xs);
          lo = (if a < 0 then max (a + n) 0 else min a n);
          hi = (if b < 0 then max (b + n) 0 else min b n)
      in take (nat (hi - lo)) (drop (nat lo) xs))"

text \<open>\<^verbatim>\<open>xs[i]\<close>: a negative index counts from the end; out of range raises.\<close>

definition py_get :: "'a list \<Rightarrow> int \<Rightarrow> error + 'a" where
  "py_get xs i =
     (if 0 \<le> i \<and> i < int (length xs) then Inr (xs ! nat i)
      else if i < 0 \<and> - int (length xs) \<le> i then Inr (xs ! nat (int (length xs) + i))
      else Inl IndexError)"

text \<open>A \<^verbatim>\<open>dict\<close> with string keys, in insertion order.\<close>

type_synonym dict = "(string \<times> pyval) list"

definition dict_get :: "dict \<Rightarrow> string \<Rightarrow> pyval" where
  "dict_get m k = (case map_of m k of None \<Rightarrow> VNone | Some v \<Rightarrow> v)"

fun dict_set :: "dict \<Rightarrow> string \<Rightarrow> pyval \<Rightarrow> dict" where
  "dict_set [] k v = [(k, v)]"
| "dict_set ((k', v') # m) k v = (if k' = k then (k, v) # m else (k', v') # dict_set m k v)"

section \<open>Configuration (utils/config.py)\<close>

text \<open>
  The loaded configuration, one field per dotted key the modelled code reads; a field
  is \<^term>\<open>None\<close> when the key is missing or null in the file.  \<^verbatim>\<open>Config\<close> is a
  singleton, so every \<^verbatim>\<open>Config()\<close> of the source is the same record here.
\<close>

record config =
  chunking_chunk_size :: "int option"
  chunking_overlap :: "int option"
  chunking_method :: "string option"
  parsing_min_chunk_words :: "int option"
  parsing_min_section_words :: "int option"
  parsing_deduplicate_chunks :: "bool option"
  parsing_exclude_headings :: "string list option"
  search_top_k :: "int option"
  audio_whisper_model :: "string option"

text \<open>\<^verbatim>\<open>Config.get(key_path, default)\<close>.\<close>

definition get :: "'a option \<Rightarrow> 'a \<Rightarrow> 'a" where
  "get val dflt = (case val of None \<Rightarrow> dflt | Some v \<Rightarrow> v)"

definition empty_config :: config where
  "empty_config = \<lparr>chunking_chunk_size = None, chunking_overlap = None,
     chunking_method = None, parsing_min_chunk_words = None,
     parsing_min_section_words = None, parsing_deduplicate_chunks = None,
     parsing_exclude_headings = None, search_top_k = None, audio_whisper_model = None\<rparr>"

section \<open>Chunking (rag/ingest.py)\<close>

text \<open>
  The two \<^verbatim>\<open>while i < len(...)\<close> loops of \<^verbatim>\<open>chunk_text\<close>.  The index \<open>i\<close> is a
  Python integer and may go negative; a loop that never leaves has the value
  \<^term>\<open>None\<close>.
\<close>

partial_function (option) chunk_words_loop ::
  "string list \<Rightarrow> int \<Rightarrow> int \<Rightarrow> int \<Rightarrow> int \<Rightarrow> string list \<Rightarrow> string list option" where
  "chunk_words_loop words chunk_size overlap min_chunk_words i chunks =
     (if i < int (length words) then
        (let chunk = py_slice words i (i + chunk_size) in
         chunk_words_loop words chunk_size overlap min_chunk_words
           (i + (chunk_size - overlap))
           (if min_chunk_words \<le> int (length chunk)
            then chunks @ [str_join '' '' chunk] else chunks))
      else Some chunks)"

declare chunk_words_loop.simps [code]

partial_function (option) chunk_paras_loop ::
  "string list \<Rightarrow> int \<Rightarrow> int \<Rightarrow> int \<Rightarrow> int \<Rightarrow> string list \<Rightarrow> string list option" where
  "chunk_paras_loop paras chunk_size overlap min_chunk_words i chunks =
     (if i < int (length paras) then
        (let chunk = str_join [CHR 0x0A, CHR 0x0A] (py_slice paras i (i + chunk_size)) in
         chunk_paras_loop paras chunk_size overlap min_chunk_words
           (i + (chunk_size - overlap))
           (if min_chunk_words \<le> int (length (str_split chunk))
            then chunks @ [chunk] else chunks))
      else Some chunks)"

declare chunk_paras_loop.simps [code]

definition chunk_text ::
  "config \<Rightarrow> string \<Rightarrow> int option \<Rightarrow> int option \<Rightarrow> string option \<Rightarrow> int option
     \<Rightarrow> string list option" where
  "chunk_text cfg text chunk_size overlap method min_chunk_words =
     (let chunk_size = or_int chunk_size (get (chunking_chunk_size cfg) 400);
          overlap = or_int overlap (get (chunking_overlap cfg) 50);
          method = or_str method (get (chunking_method cfg) ''words'');
          min_chunk_words = or_int min_chunk_words (get (parsing_min_chunk_words cfg) 50)
      in if method = ''paragraphs'' then
           chunk_paras_loop [p \<leftarrow> str_split_nn text. str_strip p \<noteq> []]
             chunk_size overlap min_chunk_words 0 []
         else chunk_words_loop (str_split text) chunk_size overlap min_chunk_words 0 [])"

text \<open>\<^verbatim>\<open>clean_chunk\<close>: \<^verbatim>\<open>re.sub(r'\s+', ' ', chunk).strip()\<close>.  The flag of
  \<open>collapse_ws\<close> says that the previous character was whitespace, already replaced.\<close>

fun collapse_ws :: "bool \<Rightarrow> string \<Rightarrow> string" where
  "collapse_ws in_run [] = []"
| "collapse_ws in_run (c # cs) =
     (if isspace c then (if in_run then collapse_ws True cs else CHR 0x20 # collapse_ws True cs)
      else c # collapse_ws False cs)"

definition clean_chunk :: "string \<Rightarrow> string" where
  "clean_chunk chunk = str_strip (collapse_ws False chunk)"

text \<open>\<^verbatim>\<open>deduplicate_chunks\<close>; Python's \<^verbatim>\<open>hash\<close> is a parameter, of any type of
  keys (Python's are integers).\<close>

fun dedup_loop :: "(string \<Rightarrow> 'k) \<Rightarrow> string list \<Rightarrow> 'k set \<Rightarrow> string list \<Rightarrow> string list" where
  "dedup_loop hash [] seen unique = unique"
| "dedup_loop hash (c # cs) seen unique =
     (let key = hash c in
      if key \<notin> seen then dedup_loop hash cs (insert key seen) (unique @ [c])
      else dedup_loop hash cs seen unique)"

definition deduplicate_chunks :: "(string \<Rightarrow> 'k) \<Rightarrow> string list \<Rightarrow> string list" where
  "deduplicate_chunks hash chunks = dedup_loop hash chunks {} []"

section \<open>Sections (rag/ingest.py)\<close>

text \<open>
  \<^verbatim>\<open>extract_sections_txt\<close>.  The regular expression is abstracted to the predicate
  \<open>is_heading\<close>: whether \<^verbatim>\<open>re.match(regex, s, re.IGNORECASE)\<close> finds a match.  An
  exclusion list that is \<^verbatim>\<open>None\<close> or empty is the empty list.
\<close>

fun extract_loop ::
  "(string \<Rightarrow> bool) \<Rightarrow> string list \<Rightarrow> string list \<Rightarrow> (string \<times> string) list
     \<Rightarrow> string list \<Rightarrow> string \<Rightarrow> (string \<times> string) list" where
  "extract_loop is_heading exclude_headings [] sections buffer current_section =
     (if buffer \<noteq> [] \<and> (exclude_headings = [] \<or> current_section \<notin> set exclude_headings)
      then sections @ [(current_section, str_join [CHR 0x0A] buffer)] else sections)"
| "extract_loop is_heading exclude_headings (line # lines) sections buffer current_section =
     (if is_heading (str_strip line) then
        extract_loop is_heading exclude_headings lines
          (if buffer \<noteq> [] \<and> (exclude_headings = [] \<or> current_section \<notin> set exclude_headings)
           then sections @ [(current_section, str_join [CHR 0x0A] buffer)] else sections)
          [] (str_strip line)
      else extract_loop is_heading exclude_headings lines sections (buffer @ [line])
             current_section)"

definition extract_sections_txt ::
  "string \<Rightarrow> (string \<Rightarrow> bool) \<Rightarrow> string list \<Rightarrow> (string \<times> string) list" where
  "extract_sections_txt text is_heading exclude_headings =
     extract_loop is_heading exclude_headings (str_splitlines text) [] [] ''Introduction''"

text \<open>
  The sections \<^verbatim>\<open>ingest_books_and_audio\<close> works on for a \<^verbatim>\<open>.txt\<close>, \<^verbatim>\<open>.pdf\<close> or
  \<^verbatim>\<open>.docx\<close> file whose extracted text is \<open>text\<close>: the extracted sections, or the
  fallback of lines 212-213 when there are none.
\<close>

definition book_sections ::
  "(string \<Rightarrow> bool) \<Rightarrow> string list \<Rightarrow> string \<Rightarrow> string \<Rightarrow> (string \<times> string) list" where
  "book_sections is_heading exclude_headings book_title text =
     (let sections = extract_sections_txt text is_heading exclude_headings
      in if sections = [] then [(book_title, text)] else sections)"

section \<open>Book ingestion (rag/ingest.py)\<close>

definition book_metadata :: "string \<Rightarrow> string \<Rightarrow> string \<Rightarrow> nat \<Rightarrow> nat \<Rightarrow> string \<Rightarrow> dict" where
  "book_metadata book_title filename section_title idx j chunk =
     [(''source_type'', VStr ''book''), (''book_title'', VStr book_title),
      (''filename'', VStr filename), (''section'', VStr section_title),
      (''section_index'', VInt (int idx)), (''chunk_index'', VInt (int j)),
      (''text'', VStr chunk)]"

text \<open>
  The loop over \<^verbatim>\<open>enumerate(sections)\<close> of one book file (lines 214-233), from
  position \<open>idx\<close> on; the accumulator is \<^verbatim>\<open>(all_chunks, all_metadata)\<close>.  The result
  is \<^term>\<open>None\<close> when \<^verbatim>\<open>chunk_text\<close> does not return.
\<close>

fun ingest_sections ::
  "config \<Rightarrow> (string \<Rightarrow> 'k) \<Rightarrow> string \<Rightarrow> string \<Rightarrow> nat \<Rightarrow> (string \<times> string) list
     \<Rightarrow> string list \<times> dict list \<Rightarrow> (string list \<times> dict list) option" where
  "ingest_sections cfg hash book_title filename idx [] acc = Some acc"
| "ingest_sections cfg hash book_title filename idx ((section_title, section_text) # rest) acc =
     (if section_text = [] \<or>
         int (length (str_split section_text)) < get (parsing_min_section_words cfg) 100
      then ingest_sections cfg hash book_title filename (Suc idx) rest acc
      else
        (case chunk_text cfg section_text
                (Some (get (chunking_chunk_size cfg) 400))
                (Some (get (chunking_overlap cfg) 50))
                (Some (get (chunking_method cfg) ''words''))
                (Some (get (parsing_min_chunk_words cfg) 50)) of
           None \<Rightarrow> None
         | Some chunks \<Rightarrow>
             (let chunks = (if get (parsing_deduplicate_chunks cfg) True
                            then deduplicate_chunks hash chunks else chunks);
                  cleaned = map clean_chunk chunks
              in ingest_sections cfg hash book_title filename (Suc idx) rest
                   (fst acc @ cleaned,
                    snd acc @ map (\<lambda>(j, chunk).
                        book_metadata book_title filename section_title idx j chunk)
                      (enumerate 0 cleaned)))))"

section \<open>The vector index (rag/vectorstore.py)\<close>

text \<open>
  The exhaustive L2 index of the FAISS library, as the library documents it: \<open>search\<close>
  returns, for each query row, exactly \<open>k\<close> distances and labels, the nearest stored
  vectors first by squared Euclidean distance; when fewer than \<open>k\<close> vectors are stored
  the missing places hold the label \<open>-1\<close> and the largest single-precision float.
  Distances are exact reals here; the library computes them in single precision, so
  its scores are rounded, and a distance that overflows is treated like a missing
  neighbour.  What is proved of distance values below holds of the exact ones.
\<close>

type_synonym vector = "real list"

record IndexFlatL2 =
  index_d :: nat
  index_xb :: "vector list"

definition l2sqr :: "vector \<Rightarrow> vector \<Rightarrow> real" where
  "l2sqr x y = sum_list (map (\<lambda>(a, b). (a - b) * (a - b)) (zip x y))"

definition FLT_MAX :: real where
  "FLT_MAX = 340282346638528859811704183484516925440"

definition ranked :: "IndexFlatL2 \<Rightarrow> vector \<Rightarrow> (real \<times> int) list" where
  "ranked ix q = sort_key fst (zip (map (l2sqr q) (index_xb ix))
                                   (map int [0..<length (index_xb ix)]))"

definition search_row :: "IndexFlatL2 \<Rightarrow> vector \<Rightarrow> nat \<Rightarrow> (real \<times> int) list" where
  "search_row ix q k =
     take k (ranked ix q) @ replicate (k - length (ranked ix q)) (FLT_MAX, - 1)"

definition search ::
  "IndexFlatL2 \<Rightarrow> vector list \<Rightarrow> int \<Rightarrow> error + (real list list \<times> int list list)" where
  "search ix x k =
     (if k \<le> 0 \<or> \<not> list_all (\<lambda>q. length q = index_d ix) x then Inl AssertionError
      else Inr (map (\<lambda>q. map fst (search_row ix q (nat k))) x,
                map (\<lambda>q. map snd (search_row ix q (nat k))) x))"

text \<open>\<^verbatim>\<open>np.stack\<close> of one-dimensional arrays: all must have one shape.\<close>

definition np_stack :: "vector list \<Rightarrow> error + vector list" where
  "np_stack arrays =
     (case arrays of [] \<Rightarrow> Inl ValueError
      | a # as \<Rightarrow> if list_all (\<lambda>b. length b = length a) as then Inr arrays
                  else Inl ValueError)"

text \<open>
  Metadata records are dictionaries, which Python shares by reference: the heap holds
  every dictionary, an address is a position in it, and a new dictionary is appended.
\<close>

type_synonym addr = nat
type_synonym heap = "dict list"

definition dict_copy :: "heap \<Rightarrow> addr \<Rightarrow> addr \<times> heap" where
  "dict_copy h a = (length h, h @ [h ! a])"

definition dict_setitem :: "heap \<Rightarrow> addr \<Rightarrow> string \<Rightarrow> pyval \<Rightarrow> heap" where
  "dict_setitem h a k v = h[a := dict_set (h ! a) k v]"

record VectorStore =
  index :: "IndexFlatL2 option"
  metadata :: "addr list"

text \<open>
  \<^verbatim>\<open>AudioEmbedder.embed\<close> on one path (rag/audioembedder.py); \<open>openl3\<close> is the file
  read, the model call and the mean over frames.
\<close>

definition AudioEmbedder_embed ::
  "(string \<Rightarrow> error + vector) \<Rightarrow> nat \<Rightarrow> string \<Rightarrow> error + vector list" where
  "AudioEmbedder_embed openl3 embedding_size audio_path =
     (case openl3 audio_path of
        Inl e \<Rightarrow> Inr [replicate embedding_size 0]
      | Inr emb_mean \<Rightarrow> np_stack [emb_mean])"

text \<open>
  \<^verbatim>\<open>VectorStore.build\<close>.  The text embedder \<open>text_embed\<close> and the audio embedder
  \<open>audio_embed\<close> are the object's collaborators; \<open>ingested\<close> is what
  \<^verbatim>\<open>ingest_books_and_audio\<close> returned, its metadata list \<open>metas\<close> as addresses in \<open>h\<close>.
\<close>

fun embed_loop ::
  "(string \<Rightarrow> error + vector list) \<Rightarrow> (string \<Rightarrow> error + vector list) \<Rightarrow> heap
     \<Rightarrow> (string \<times> addr) list \<Rightarrow> vector list \<Rightarrow> vector list" where
  "embed_loop text_embed audio_embed h [] embeddings = embeddings"
| "embed_loop text_embed audio_embed h ((chunk, meta) # rest) embeddings =
     (case (if dict_get (h ! meta) ''source_type'' = VStr ''audio_clap''
            then audio_embed chunk else text_embed chunk) of
        Inl e \<Rightarrow> embed_loop text_embed audio_embed h rest embeddings
      | Inr m \<Rightarrow>
          (case py_get m 0 of
             Inl e \<Rightarrow> embed_loop text_embed audio_embed h rest embeddings
           | Inr emb \<Rightarrow> embed_loop text_embed audio_embed h rest (embeddings @ [emb])))"

definition build ::
  "(string \<Rightarrow> error + vector list) \<Rightarrow> (string \<Rightarrow> error + vector list) \<Rightarrow> VectorStore
     \<Rightarrow> heap \<Rightarrow> error + (string list \<times> addr list) \<Rightarrow> error + VectorStore" where
  "build text_embed audio_embed self h ingested =
     (case ingested of
        Inl e \<Rightarrow> Inl e
      | Inr (chunks, metas) \<Rightarrow>
          (let embeddings = embed_loop text_embed audio_embed h (zip chunks metas) [] in
           if embeddings = [] then Inl RuntimeError
           else (case np_stack embeddings of
                   Inl e \<Rightarrow> Inl e
                 | Inr embeddings \<Rightarrow>
                     Inr (self\<lparr>index := Some \<lparr>index_d = length (hd embeddings),
                                               index_xb = embeddings\<rparr>,
                               metadata := metas\<rparr>))))"

text \<open>
  \<^verbatim>\<open>VectorStore.query\<close>: the loop over \<^verbatim>\<open>zip(I[0], D[0])\<close>, then the method.  The
  result is the list of the new dictionaries' addresses, or the exception, and the
  heap after the call.
\<close>

fun query_loop ::
  "addr list \<Rightarrow> (int \<times> real) list \<Rightarrow> heap \<Rightarrow> addr list \<Rightarrow> (error + addr list) \<times> heap" where
  "query_loop metas [] h results = (Inr results, h)"
| "query_loop metas ((idx, score) # rest) h results =
     (case py_get metas idx of
        Inl e \<Rightarrow> (Inl e, h)
      | Inr a \<Rightarrow>
          (let (meta, h1) = dict_copy h a;
               h2 = dict_setitem h1 meta ''score'' (VFloat score)
           in query_loop metas rest h2 (results @ [meta])))"

definition query ::
  "config \<Rightarrow> (string \<Rightarrow> error + vector list) \<Rightarrow> VectorStore \<Rightarrow> heap \<Rightarrow> string
     \<Rightarrow> int option \<Rightarrow> (error + addr list) \<times> heap" where
  "query cfg text_embed self h query_text top_k =
     (let top_k = or_int top_k (get (search_top_k cfg) 5) in
      case text_embed query_text of
        Inl e \<Rightarrow> (Inl e, h)
      | Inr emb \<Rightarrow>
          (case index self of
             None \<Rightarrow> (Inl AttributeError, h)
           | Some ix \<Rightarrow>
               (case search ix emb top_k of
                  Inl e \<Rightarrow> (Inl e, h)
                | Inr (D, I) \<Rightarrow>
                    (case py_get I 0 of
                       Inl e \<Rightarrow> (Inl e, h)
                     | Inr I0 \<Rightarrow>
                         (case py_get D 0 of
                            Inl e \<Rightarrow> (Inl e, h)
                          | Inr D0 \<Rightarrow> query_loop (metadata self) (zip I0 D0) h [])))))"

text \<open>\<^verbatim>\<open>VectorStore.query_audio\<close>; \<open>transcribe_audio\<close> takes the path and the model
  name and gives the transcript (rag/audio.py, without segments).\<close>

definition query_audio ::
  "config \<Rightarrow> (string \<Rightarrow> string \<Rightarrow> error + string) \<Rightarrow> (string \<Rightarrow> error + vector list)
     \<Rightarrow> VectorStore \<Rightarrow> heap \<Rightarrow> string \<Rightarrow> int option \<Rightarrow> (error + addr list) \<times> heap" where
  "query_audio cfg transcribe_audio text_embed self h audio_path top_k =
     (case transcribe_audio audio_path (get (audio_whisper_model cfg) ''base'') of
        Inl e \<Rightarrow> (Inl e, h)
      | Inr transcript \<Rightarrow> query cfg text_embed self h transcript top_k)"

section \<open>The retriever (rag/langchain_retriever.py)\<close>

record VoxarchRetriever =
  vs :: VectorStore
  mode :: string
  top_k :: "int option"

text \<open>A LangChain \<^verbatim>\<open>Document\<close>: the content and a reference to the metadata dictionary.\<close>

record Document =
  page_content :: pyval
  doc_metadata :: addr

definition get_relevant_documents ::
  "config \<Rightarrow> (string \<Rightarrow> string \<Rightarrow> error + string) \<Rightarrow> (string \<Rightarrow> error + vector list)
     \<Rightarrow> VoxarchRetriever \<Rightarrow> heap \<Rightarrow> string \<Rightarrow> Document list \<times> heap" where
  "get_relevant_documents cfg transcribe_audio text_embed self h q =
     (let k = or_int (top_k self) 5 in
      case (if mode self = ''audio''
            then query_audio cfg transcribe_audio text_embed (vs self) h q (Some k)
            else query cfg text_embed (vs self) h q (Some k)) of
        (Inl e, h') \<Rightarrow> ([], h')
      | (Inr results, h') \<Rightarrow>
          (map (\<lambda>meta. \<lparr>page_content = py_or (dict_get (h' ! meta) ''text'') (VStr []),
                        doc_metadata = meta\<rparr>) results, h'))"

section \<open>Sliding windows\<close>

text \<open>
  The windows the specification describes for the word method: window \<open>j\<close> holds the
  \<open>chunk_size\<close> words from position \<open>j * stride\<close> on (fewer at the end of the text),
  and there is one window for every \<open>j\<close> with \<open>j * stride\<close> inside the text.
\<close>

definition window :: "'a list \<Rightarrow> nat \<Rightarrow> nat \<Rightarrow> nat \<Rightarrow> 'a list" where
  "window words chunk_size stride j = take chunk_size (drop (j * stride) words)"

definition n_windows :: "nat \<Rightarrow> nat \<Rightarrow> nat" where
  "n_windows n stride = (n + stride - 1) div stride"

text \<open>A word as \<^verbatim>\<open>str.split\<close> produces it: not empty and free of whitespace.\<close>

definition plain_word :: "string \<Rightarrow> bool" where
  "plain_word w = (w \<noteq> [] \<and> \<not> list_ex isspace w)"

section \<open>Example inputs\<close>

text \<open>A heading pattern in the style of the default \<^verbatim>\<open>^Chapter|^Section\<close>.\<close>

definition is_chapter :: "string \<Rightarrow> bool" where
  "is_chapter s = (take 7 s = ''Chapter'')"

text \<open>A text embedder that raises on the chunk \<^verbatim>\<open>"bad"\<close> and embeds every other text in
  two dimensions.\<close>

definition ex_embed :: "string \<Rightarrow> error + vector list" where
  "ex_embed s = (if s = ''bad'' then Inl EmbeddingError else Inr [[real (length s), 0]])"

text \<open>Two book records on the heap, for the chunks \<^verbatim>\<open>"abc"\<close> and \<^verbatim>\<open>"good"\<close>, and the
  store built from them: vector \<open>i\<close> belongs to record \<open>i\<close>.\<close>

definition ex_heap :: heap where
  "ex_heap = [book_metadata ''book'' ''book.txt'' ''Introduction'' 0 0 ''abc'',
              book_metadata ''book'' ''book.txt'' ''Introduction'' 0 1 ''good'']"

definition ex_store :: VectorStore where
  "ex_store = \<lparr>index = Some \<lparr>index_d = 2, index_xb = [[3, 0], [4, 0]]\<rparr>, metadata = [0, 1]\<rparr>"

text \<open>The same two records when the first chunk is \<^verbatim>\<open>"bad"\<close>.\<close>

definition ex_heap_bad :: heap where
  "ex_heap_bad = [book_metadata ''book'' ''book.txt'' ''Introduction'' 0 0 ''bad'',
                  book_metadata ''book'' ''book.txt'' ''Introduction'' 0 1 ''good'']"


section \<open>Chunking: when the loops return\<close>

lemma str_split_single: "str_split ''a'' = [''a'']"
  by (simp add: str_split_def isspace_def)

lemma words_loop_no_result:
  assumes "chunk_words_loop words chunk_size overlap m i chunks = Some y"
  shows "\<not> (chunk_size \<le> overlap \<and> i \<le> 0 \<and> words \<noteq> [])"
proof (rule chunk_words_loop.raw_induct[where P = "\<lambda>ws c ov m i chunks y. \<not> (c \<le> ov \<and> i \<le> 0 \<and> ws \<noteq> [])", OF _ assms])
  fix f :: "string list \<Rightarrow> int \<Rightarrow> int \<Rightarrow> int \<Rightarrow> int \<Rightarrow> string list \<Rightarrow> string list option"
  fix ws :: "string list" and c ov m i :: int and chunks y :: "string list"
  assume IH: "\<And>ws c ov m i chunks y. f ws c ov m i chunks = Some y \<Longrightarrow> \<not> (c \<le> ov \<and> i \<le> 0 \<and> ws \<noteq> [])"
  assume step: "(if i < int (length ws) then
        (let chunk = py_slice ws i (i + c) in
         f ws c ov m (i + (c - ov))
           (if m \<le> int (length chunk) then chunks @ [str_join '' '' chunk] else chunks))
      else Some chunks) = Some y"
  show "\<not> (c \<le> ov \<and> i \<le> 0 \<and> ws \<noteq> [])"
  proof
    assume a: "c \<le> ov \<and> i \<le> 0 \<and> ws \<noteq> []"
    then have "i < int (length ws)" by (cases ws) auto
    with step obtain ch where "f ws c ov m (i + (c - ov)) ch = Some y"
      by (auto simp: Let_def)
    from IH[OF this] a show False by auto
  qed
qed

lemma words_loop_diverges:
  assumes "chunk_size \<le> overlap" "i \<le> 0" "words \<noteq> []"
  shows "chunk_words_loop words chunk_size overlap m i chunks = None"
  using words_loop_no_result[of words chunk_size overlap m i chunks] assms
  by (cases "chunk_words_loop words chunk_size overlap m i chunks") auto

lemma paras_loop_no_result:
  assumes "chunk_paras_loop paras chunk_size overlap m i chunks = Some y"
  shows "\<not> (chunk_size \<le> overlap \<and> i \<le> 0 \<and> paras \<noteq> [])"
proof (rule chunk_paras_loop.raw_induct[where P = "\<lambda>ps c ov m i chunks y. \<not> (c \<le> ov \<and> i \<le> 0 \<and> ps \<noteq> [])", OF _ assms])
  fix f :: "string list \<Rightarrow> int \<Rightarrow> int \<Rightarrow> int \<Rightarrow> int \<Rightarrow> string list \<Rightarrow> string list option"
  fix ps :: "string list" and c ov m i :: int and chunks y :: "string list"
  assume IH: "\<And>ps c ov m i chunks y. f ps c ov m i chunks = Some y \<Longrightarrow> \<not> (c \<le> ov \<and> i \<le> 0 \<and> ps \<noteq> [])"
  assume step: "(if i < int (length ps) then
        (let chunk = str_join [CHR 0x0A, CHR 0x0A] (py_slice ps i (i + c)) in
         f ps c ov m (i + (c - ov))
           (if m \<le> int (length (str_split chunk)) then chunks @ [chunk] else chunks))
      else Some chunks) = Some y"
  show "\<not> (c \<le> ov \<and> i \<le> 0 \<and> ps \<noteq> [])"
  proof
    assume a: "c \<le> ov \<and> i \<le> 0 \<and> ps \<noteq> []"
    then have "i < int (length ps)" by (cases ps) auto
    with step obtain ch where "f ps c ov m (i + (c - ov)) ch = Some y"
      by (auto simp: Let_def)
    from IH[OF this] a show False by auto
  qed
qed

lemma paras_loop_diverges:
  assumes "chunk_size \<le> overlap" "i \<le> 0" "paras \<noteq> []"
  shows "chunk_paras_loop paras chunk_size overlap m i chunks = None"
  using paras_loop_no_result[of paras chunk_size overlap m i chunks] assms
  by (cases "chunk_paras_loop paras chunk_size overlap m i chunks") auto

text \<open>
  With a stride that is zero or negative, \<^verbatim>\<open>chunk_text\<close> returns on no text that has
  a word (word method) or a non-blank paragraph (paragraph method): there is no check
  of the setting, and the loop index never passes the end.
\<close>

lemma chunk_text_diverges:
  assumes "or_int chunk_size (get (chunking_chunk_size cfg) 400)
             \<le> or_int overlap (get (chunking_overlap cfg) 50)"
    and "or_str method (get (chunking_method cfg) ''words'') \<noteq> ''paragraphs''"
    and "str_split text \<noteq> []"
  shows "chunk_text cfg text chunk_size overlap method min_chunk_words = None"
  using assms by (simp add: chunk_text_def Let_def words_loop_diverges)

lemma chunk_text_paragraphs_diverges:
  assumes "or_int chunk_size (get (chunking_chunk_size cfg) 400)
             \<le> or_int overlap (get (chunking_overlap cfg) 50)"
    and "or_str method (get (chunking_method cfg) ''words'') = ''paragraphs''"
    and "[p \<leftarrow> str_split_nn text. str_strip p \<noteq> []] \<noteq> []"
  shows "chunk_text cfg text chunk_size overlap method min_chunk_words = None"
  using assms by (simp add: chunk_text_def Let_def paras_loop_diverges)

text \<open>
  C3 (the specification asks that \<open>overlap \<ge> chunk_size\<close> be a configuration error that
  fails fast, so that \<^verbatim>\<open>chunk_text\<close> terminates on every non-empty input): the code
  does not.  On the one-word text \<^verbatim>\<open>"a"\<close> with \<open>chunk_size = 50\<close>, \<open>overlap = 50\<close> and
  the defaults otherwise (word method, \<open>min_chunk_words = 50\<close>), the call raises
  nothing and never returns: the index stays at 0 and no chunk is ever appended.
\<close>

theorem chunk_text_overlap_eq_size_never_returns:
  "chunk_text empty_config ''a'' (Some 50) (Some 50) None None = None"
  by (rule chunk_text_diverges)
     (simp_all add: or_int_def or_str_def get_def empty_config_def str_split_single)




section \<open>Chunking: the word method and its windows\<close>

lemma py_slice_window:
  "0 \<le> i \<Longrightarrow> 0 < c \<Longrightarrow> py_slice xs i (i + c) = take (nat c) (drop (nat i) xs)"
  by (auto simp: py_slice_def Let_def min_def)

lemma n_windows_iff: "0 < s \<Longrightarrow> j < n_windows n s \<longleftrightarrow> j * s < n"
proof -
  assume s: "0 < s"
  have "j < n_windows n s \<longleftrightarrow> Suc j \<le> (n + s - 1) div s"
    by (simp add: n_windows_def Suc_le_eq)
  also have "\<dots> \<longleftrightarrow> Suc j * s \<le> n + s - 1"
    using s by (simp add: less_eq_div_iff_mult_less_eq)
  also have "\<dots> \<longleftrightarrow> j * s < n" using s by (cases n) auto
  finally show ?thesis .
qed

lemma words_loop_from:
  assumes "0 \<le> overlap" "overlap < chunk_size"
  shows "chunk_words_loop words chunk_size overlap m
           (int (j * nat (chunk_size - overlap))) chunks =
         Some (chunks @ map (str_join '' '')
           (filter (\<lambda>w. m \<le> int (length w))
             (map (window words (nat chunk_size) (nat (chunk_size - overlap)))
               [j..<n_windows (length words) (nat (chunk_size - overlap))])))"
proof (induction "n_windows (length words) (nat (chunk_size - overlap)) - j" arbitrary: j chunks)
  case 0
  then have "\<not> j < n_windows (length words) (nat (chunk_size - overlap))" by simp
  then have "\<not> j * nat (chunk_size - overlap) < length words"
    using assms by (simp add: n_windows_iff)
  then have "\<not> int (j * nat (chunk_size - overlap)) < int (length words)" by linarith
  then show ?case using 0
    by (subst chunk_words_loop.simps) simp
next
  case (Suc k)
  let ?s = "nat (chunk_size - overlap)"
  let ?N = "n_windows (length words) ?s"
  from Suc have lt: "j < ?N" by simp
  then have "j * ?s < length words" using assms by (simp add: n_windows_iff)
  then have cond: "int (j * ?s) < int (length words)" by linarith
  have sl: "py_slice words (int (j * ?s)) (int (j * ?s) + chunk_size) = window words (nat chunk_size) ?s j"
    using assms by (simp add: py_slice_window window_def nat_mult_distrib)
  have nxt: "int (j * ?s) + (chunk_size - overlap) = int (Suc j * ?s)"
    using assms by (simp add: algebra_simps)
  have k: "k = ?N - Suc j" using Suc by simp
  have upt: "[j..<?N] = j # [Suc j..<?N]" using lt by (simp add: upt_conv_Cons)
  show ?case
    apply (subst chunk_words_loop.simps)
    apply (simp only: cond if_True Let_def sl nxt)
    apply (subst Suc(1)[OF k])
    apply (simp add: upt)
    done
qed

lemma window_cover:
  assumes "0 < s" "s \<le> c" "p < length words"
  shows "p div s < n_windows (length words) s \<and> p div s * s \<le> p \<and>
         p - p div s * s < length (window words c s (p div s)) \<and>
         window words c s (p div s) ! (p - p div s * s) = words ! p"
proof -
  define q where "q = p div s * s"
  have a: "q \<le> p" by (simp add: q_def)
  have "p mod s < s" using assms(1) by simp
  moreover have "p = q + p mod s" by (simp add: q_def)
  ultimately have b: "p < q + s" by linarith
  have "q < length words" using a assms(3) by linarith
  then have j: "p div s < n_windows (length words) s"
    using assms(1) by (simp add: n_windows_iff q_def)
  have l: "p - q < length (window words c s (p div s))"
    using a b assms by (auto simp: window_def q_def[symmetric])
  have "p - q < c" using a b assms by linarith
  then have "window words c s (p div s) ! (p - q) = words ! p"
    using a assms by (simp add: window_def q_def[symmetric])
  with j a l show ?thesis by (simp add: q_def)
qed

lemma window_overlap:
  assumes "s \<le> c" "j * s + c \<le> length words"
  shows "drop s (window words c s j) = take (c - s) (window words c s (Suc j)) \<and>
         length (drop s (window words c s j)) = c - s"
  using assms by (auto simp: window_def drop_take add.commute min_def)

lemma window_nonempty:
  assumes "0 < s" "0 < c" "j < n_windows (length words) s"
  shows "1 \<le> length (window words c s j)"
proof -
  have "j * s < length words" using assms by (simp add: n_windows_iff)
  then show ?thesis using assms(2) by (simp add: window_def)
qed

text \<open>
  C6, as the code has it.  Take the effective settings of a call (an argument that is
  absent or \<open>0\<close> is replaced by the configured value) with \<open>0 \<le> overlap < chunk_size\<close>
  and the word method.  Then \<^verbatim>\<open>chunk_text\<close> returns, in order and joined by single
  spaces, the windows of \<open>chunk_size\<close> words at stride \<open>chunk_size - overlap\<close> that
  hold at least \<open>min_chunk_words\<close> words; shorter windows are dropped.  When
  \<open>min_chunk_words \<le> 1\<close> no window is dropped.  Every input word lies in some
  window, and a window of full length shares exactly its last \<open>overlap\<close> words with
  the beginning of the next window.
\<close>

theorem chunk_text_words_windows:
  assumes c: "c = or_int chunk_size (get (chunking_chunk_size cfg) 400)"
    and ov: "ov = or_int overlap (get (chunking_overlap cfg) 50)"
    and m: "m = or_int min_chunk_words (get (parsing_min_chunk_words cfg) 50)"
    and meth: "or_str how (get (chunking_method cfg) ''words'') \<noteq> ''paragraphs''"
    and words: "words = str_split t"
    and s: "s = nat (c - ov)"
    and N: "N = n_windows (length words) s"
    and range: "0 \<le> ov" "ov < c"
  shows "chunk_text cfg t chunk_size overlap how min_chunk_words =
           Some (map (str_join '' '')
                  (filter (\<lambda>w. m \<le> int (length w)) (map (window words (nat c) s) [0..<N]))) \<and>
         (m \<le> 1 \<longrightarrow>
            filter (\<lambda>w. m \<le> int (length w)) (map (window words (nat c) s) [0..<N]) =
              map (window words (nat c) s) [0..<N]) \<and>
         (\<forall>p<length words. \<exists>j<N. j * s \<le> p \<and> p - j * s < length (window words (nat c) s j) \<and>
              window words (nat c) s j ! (p - j * s) = words ! p) \<and>
         (\<forall>j. Suc j < N \<and> j * s + nat c \<le> length words \<longrightarrow>
              drop s (window words (nat c) s j) = take (nat ov) (window words (nat c) s (Suc j)) \<and>
              length (drop s (window words (nat c) s j)) = nat ov)"
proof -
  have s0: "0 < s" and sc: "s \<le> nat c" and c0: "0 < nat c" and cs: "nat c - s = nat ov"
    using s range by auto
  have "chunk_words_loop words c ov m (int (0 * nat (c - ov))) [] =
          Some ([] @ map (str_join '' '')
            (filter (\<lambda>w. m \<le> int (length w))
              (map (window words (nat c) (nat (c - ov))) [0..<n_windows (length words) (nat (c - ov))])))"
    using range by (rule words_loop_from)
  then have 1: "chunk_text cfg t chunk_size overlap how min_chunk_words =
           Some (map (str_join '' '')
                  (filter (\<lambda>w. m \<le> int (length w)) (map (window words (nat c) s) [0..<N])))"
    using meth by (simp add: chunk_text_def Let_def c ov m words s N)
  have 2: "filter (\<lambda>w. m \<le> int (length w)) (map (window words (nat c) s) [0..<N]) =
              map (window words (nat c) s) [0..<N]" if "m \<le> 1"
  proof (rule filter_True, clarsimp)
    fix j assume "j < N"
    then have "1 \<le> length (window words (nat c) s j)"
      using s0 c0 unfolding N by (rule window_nonempty[rotated 2])
    with that show "m \<le> int (length (window words (nat c) s j))" by linarith
  qed
  have 3: "\<exists>j<N. j * s \<le> p \<and> p - j * s < length (window words (nat c) s j) \<and>
              window words (nat c) s j ! (p - j * s) = words ! p" if "p < length words" for p
    using window_cover[OF s0 sc that] unfolding N by blast
  have 4: "drop s (window words (nat c) s j) = take (nat ov) (window words (nat c) s (Suc j)) \<and>
              length (drop s (window words (nat c) s j)) = nat ov"
    if "j * s + nat c \<le> length words" for j
    using window_overlap[OF sc that] unfolding cs .
  from 1 2 3 4 show ?thesis by blast
qed

lemma str_split_abcde: "str_split ''a b c d e'' = [''a'', ''b'', ''c'', ''d'', ''e'']"
  by (simp add: str_split_def isspace_def)

theorem chunk_text_words_windows_witness:
  "chunk_text empty_config ''a b c d e'' (Some 2) (Some 1) None (Some 1) =
     Some [''a b'', ''b c'', ''c d'', ''d e'', ''e''] \<and>
   drop 1 (window [''a'', ''b'', ''c'', ''d'', ''e''] 2 1 0) = [''b''] \<and>
   take 1 (window [''a'', ''b'', ''c'', ''d'', ''e''] 2 1 1) = [''b'']"
proof -
  have "chunk_text empty_config ''a b c d e'' (Some 2) (Some 1) None (Some 1) =
           Some (map (str_join '' '')
                  (filter (\<lambda>w. 1 \<le> int (length w))
                    (map (window [''a'', ''b'', ''c'', ''d'', ''e''] (nat 2) 1) [0..<5])))"
    using chunk_text_words_windows[where c = 2 and ov = 1 and m = 1 and s = 1 and N = 5
        and words = "[''a'', ''b'', ''c'', ''d'', ''e'']" and cfg = empty_config
        and t = "''a b c d e''" and chunk_size = "Some 2" and overlap = "Some 1"
        and how = None and min_chunk_words = "Some 1"]
    by (simp add: or_int_def or_str_def get_def empty_config_def str_split_abcde n_windows_def)
  then show ?thesis
    by (simp add: window_def upt_rec)
qed

text \<open>An overlap argument of \<open>0\<close> counts as absent: without a configured overlap it is
  replaced by 50, which is not below a chunk size of 10, and the call never returns.\<close>

lemma chunk_text_zero_overlap_uses_default:
  "chunk_text empty_config ''a'' (Some 10) (Some 0) None None = None"
  by (rule chunk_text_diverges) (simp_all add: or_int_def or_str_def get_def empty_config_def str_split_single)

text \<open>
  C6 as stated fails: with \<open>chunk_size = 2\<close>, \<open>overlap = 1\<close> and the default
  \<open>min_chunk_words = 50\<close>, the three-word text \<^verbatim>\<open>"a b c"\<close> yields no chunk at all,
  so none of its words is covered.
\<close>

theorem chunk_text_drops_short_windows:
  "str_split ''a b c'' = [''a'', ''b'', ''c''] \<and>
   chunk_text empty_config ''a b c'' (Some 2) (Some 1) None None = Some []"
  by (simp add: chunk_text_def or_int_def or_str_def get_def empty_config_def str_split_def
      isspace_def chunk_words_loop.simps py_slice_def)

section \<open>Sections of a text without headings\<close>

lemma extract_loop_no_heading:
  "\<forall>line\<in>set lines. \<not> is_heading (str_strip line) \<Longrightarrow>
   extract_loop is_heading ex lines sections buffer cur =
     (if buffer @ lines \<noteq> [] \<and> (ex = [] \<or> cur \<notin> set ex)
      then sections @ [(cur, str_join [CHR 0x0A] (buffer @ lines))] else sections)"
  by (induction lines arbitrary: buffer) auto

text \<open>
  C4, as the code has it.  For a non-EPUB document none of whose lines matches the
  heading pattern: when the text has at least one line and \<^verbatim>\<open>"Introduction"\<close> is not an
  excluded heading, extraction yields exactly one section, titled \<^verbatim>\<open>"Introduction"\<close>,
  whose body is the lines of the text joined by single line feeds.  Otherwise (the
  text has no line, or \<^verbatim>\<open>"Introduction"\<close> is excluded) it yields exactly one section
  titled after the document, whose body is the full text.
\<close>

theorem no_heading_sections:
  assumes "\<forall>line\<in>set (str_splitlines t). \<not> is_heading (str_strip line)"
  shows "book_sections is_heading exclude_headings book_title t =
           (if str_splitlines t \<noteq> [] \<and> ''Introduction'' \<notin> set exclude_headings
            then [(''Introduction'', str_join [CHR 0x0A] (str_splitlines t))]
            else [(book_title, t)])"
  using assms
  by (auto simp: book_sections_def extract_sections_txt_def extract_loop_no_heading Let_def)

lemma splitlines_hello: "str_splitlines ''hello'' = [''hello'']"
  by (simp add: str_splitlines_def is_linebreak_def)

theorem no_heading_sections_witness:
  "book_sections is_chapter [] ''book'' ''hello'' = [(''Introduction'', ''hello'')] \<and>
   book_sections is_chapter [''Introduction''] ''book'' ''hello'' = [(''book'', ''hello'')]"
proof -
  have "\<forall>line\<in>set (str_splitlines ''hello''). \<not> is_chapter (str_strip line)"
    by (simp add: splitlines_hello is_chapter_def str_strip_def isspace_def)
  from no_heading_sections[OF this, of "[]" "''book''"]
       no_heading_sections[OF this, of "[''Introduction'']" "''book''"]
  show ?thesis by (simp add: splitlines_hello)
qed

text \<open>
  C4 as stated fails: the one-line text \<^verbatim>\<open>"hello"\<close> of the document \<^verbatim>\<open>book\<close> has no
  heading line, and its only section is titled \<^verbatim>\<open>"Introduction"\<close>, not \<^verbatim>\<open>"book"\<close>.
\<close>

theorem no_heading_section_is_introduction:
  "filter (\<lambda>line. is_chapter (str_strip line)) (str_splitlines ''hello'') = [] \<and>
   book_sections is_chapter [] ''book'' ''hello'' = [(''Introduction'', ''hello'')] \<and>
   book_sections is_chapter [] ''book'' ''hello'' \<noteq> [(''book'', ''hello'')]"
  by (simp add: splitlines_hello book_sections_def extract_sections_txt_def is_chapter_def
      str_strip_def isspace_def)

section \<open>Deduplication\<close>

lemma dedup_loop_acc:
  "dedup_loop hash cs seen unique = unique @ dedup_loop hash cs seen []"
proof (induction cs arbitrary: seen unique)
  case Nil
  show ?case by simp
next
  case (Cons c cs)
  show ?case
    using Cons[of "insert (hash c) seen" "unique @ [c]"] Cons[of "insert (hash c) seen" "[c]"]
          Cons[of seen unique]
    by (simp add: Let_def)
qed

lemma dedup_loop_Cons:
  "dedup_loop hash (c # cs) seen [] =
     (if hash c \<in> seen then dedup_loop hash cs seen []
      else c # dedup_loop hash cs (insert (hash c) seen) [])"
  using dedup_loop_acc[of hash cs "insert (hash c) seen" "[c]"] by (simp add: Let_def)

lemma dedup_loop_find:
  "find (\<lambda>x. hash x = k) (dedup_loop hash cs seen []) =
     (if k \<in> seen then None else find (\<lambda>x. hash x = k) cs)"
proof (induction cs arbitrary: seen)
  case Nil
  show ?case by simp
next
  case (Cons c cs)
  show ?case unfolding dedup_loop_Cons using Cons[of seen] Cons[of "insert (hash c) seen"]
    by auto
qed

lemma dedup_loop_keys:
  "hash ` set (dedup_loop hash cs seen []) \<inter> seen = {}"
proof (induction cs arbitrary: seen)
  case Nil
  show ?case by simp
next
  case (Cons c cs)
  show ?case unfolding dedup_loop_Cons using Cons[of seen] Cons[of "insert (hash c) seen"]
    by auto
qed

lemma dedup_loop_distinct: "distinct (map hash (dedup_loop hash cs seen []))"
proof (induction cs arbitrary: seen)
  case Nil
  show ?case by simp
next
  case (Cons c cs)
  show ?case unfolding dedup_loop_Cons
    using Cons[of seen] Cons[of "insert (hash c) seen"]
          dedup_loop_keys[of hash cs "insert (hash c) seen"]
    by auto
qed

lemma dedup_loop_subseq: "subseq (dedup_loop hash cs seen []) cs"
proof (induction cs arbitrary: seen)
  case Nil
  show ?case by simp
next
  case (Cons c cs)
  show ?case unfolding dedup_loop_Cons
    using Cons[of seen] Cons[of "insert (hash c) seen"] by auto
qed

text \<open>Chunks of the word method are joined from words by single spaces, so whitespace
  normalization leaves them as they are.\<close>

lemma split_acc_plain:
  "\<not> list_ex isspace cur \<Longrightarrow> list_all plain_word (split_acc cur s)"
  by (induction s arbitrary: cur) (auto simp: plain_word_def list_ex_iff)

lemma str_split_plain: "list_all plain_word (str_split s)"
  by (simp add: str_split_def split_acc_plain)

lemma py_slice_subset: "set (py_slice xs a b) \<subseteq> set xs"
proof -
  have "set (take n (drop k xs)) \<subseteq> set xs" for n k
    by (meson set_drop_subset set_take_subset subset_trans)
  then show ?thesis by (simp add: py_slice_def Let_def)
qed

lemma collapse_ws_word:
  "plain_word w \<Longrightarrow> collapse_ws b (w @ r) = w @ collapse_ws False r"
proof (induction w arbitrary: b)
  case Nil
  then show ?case by (simp add: plain_word_def)
next
  case (Cons c w)
  then show ?case by (cases w) (auto simp: plain_word_def)
qed

lemma collapse_ws_join:
  "list_all plain_word ws \<Longrightarrow> collapse_ws b (str_join '' '' ws) = str_join '' '' ws"
proof (induction "'' ''" ws arbitrary: b rule: str_join.induct)
  case 1
  show ?case by simp
next
  case (2 x)
  then show ?case using collapse_ws_word[of x b "[]"] by simp
next
  case (3 x y ys)
  then show ?case using collapse_ws_word[of x b "'' '' @ str_join '' '' (y # ys)"]
    by (simp add: isspace_def)
qed

lemma str_strip_id:
  assumes "s = [] \<or> (\<not> isspace (hd s) \<and> \<not> isspace (last s))"
  shows "str_strip s = s"
proof -
  have 1: "dropWhile isspace s = s" using assms by (auto simp: dropWhile_eq_self_iff)
  have 2: "dropWhile isspace (rev s) = rev s"
    using assms by (auto simp: dropWhile_eq_self_iff hd_rev)
  show ?thesis by (simp add: str_strip_def 1 2)
qed

lemma plain_word_ends:
  "plain_word x \<Longrightarrow> x \<noteq> [] \<and> \<not> isspace (hd x) \<and> \<not> isspace (last x)"
  by (auto simp: plain_word_def list_ex_iff)

lemma join_hd_last:
  "list_all plain_word ws \<Longrightarrow> ws \<noteq> [] \<Longrightarrow>
     str_join '' '' ws \<noteq> [] \<and> \<not> isspace (hd (str_join '' '' ws)) \<and>
     \<not> isspace (last (str_join '' '' ws))"
proof (induction "'' ''" ws rule: str_join.induct)
  case 1
  then show ?case by simp
next
  case (2 x)
  then show ?case using plain_word_ends[of x] by simp
next
  case (3 x y ys)
  then show ?case using plain_word_ends[of x] by simp
qed

lemma clean_chunk_join:
  assumes "list_all plain_word ws"
  shows "clean_chunk (str_join '' '' ws) = str_join '' '' ws"
proof (cases "ws = []")
  case True
  then show ?thesis by (simp add: clean_chunk_def str_strip_def)
next
  case False
  with assms join_hd_last[of ws] show ?thesis
    by (simp add: clean_chunk_def collapse_ws_join str_strip_id)
qed

lemma words_loop_clean:
  assumes "chunk_words_loop words chunk_size overlap m i chunks = Some r"
  shows "list_all plain_word words \<and> (\<forall>x\<in>set chunks. clean_chunk x = x)
           \<longrightarrow> (\<forall>x\<in>set r. clean_chunk x = x)"
proof (rule chunk_words_loop.raw_induct[where P = "\<lambda>ws c ov m i chunks r.
          list_all plain_word ws \<and> (\<forall>x\<in>set chunks. clean_chunk x = x)
           \<longrightarrow> (\<forall>x\<in>set r. clean_chunk x = x)", OF _ assms])
  fix f :: "string list \<Rightarrow> int \<Rightarrow> int \<Rightarrow> int \<Rightarrow> int \<Rightarrow> string list \<Rightarrow> string list option"
  fix ws :: "string list" and c ov m i :: int and chunks y :: "string list"
  assume IH: "\<And>ws c ov m i chunks y. f ws c ov m i chunks = Some y \<Longrightarrow>
     list_all plain_word ws \<and> (\<forall>x\<in>set chunks. clean_chunk x = x)
           \<longrightarrow> (\<forall>x\<in>set y. clean_chunk x = x)"
  assume step: "(if i < int (length ws) then
        (let chunk = py_slice ws i (i + c) in
         f ws c ov m (i + (c - ov))
           (if m \<le> int (length chunk) then chunks @ [str_join '' '' chunk] else chunks))
      else Some chunks) = Some y"
  show "list_all plain_word ws \<and> (\<forall>x\<in>set chunks. clean_chunk x = x)
           \<longrightarrow> (\<forall>x\<in>set y. clean_chunk x = x)"
  proof
    assume a: "list_all plain_word ws \<and> (\<forall>x\<in>set chunks. clean_chunk x = x)"
    show "\<forall>x\<in>set y. clean_chunk x = x"
    proof (cases "i < int (length ws)")
      case False
      with step a show ?thesis by simp
    next
      case True
      let ?chunk = "py_slice ws i (i + c)"
      let ?chunks' = "if m \<le> int (length ?chunk) then chunks @ [str_join '' '' ?chunk] else chunks"
      from True step have run: "f ws c ov m (i + (c - ov)) ?chunks' = Some y"
        by (simp add: Let_def)
      have "list_all plain_word ?chunk"
        using a py_slice_subset[of ws i "i + c"] by (auto simp: list_all_iff)
      then have "clean_chunk (str_join '' '' ?chunk) = str_join '' '' ?chunk"
        by (rule clean_chunk_join)
      with a have "\<forall>x\<in>set ?chunks'. clean_chunk x = x" by auto
      with IH[OF run] a show ?thesis by blast
    qed
  qed
qed

lemma word_chunks_are_clean:
  assumes "or_str how (get (chunking_method cfg) ''words'') \<noteq> ''paragraphs''"
    and "chunk_text cfg t chunk_size overlap how min_chunk_words = Some chunks"
    and "c \<in> set chunks"
  shows "clean_chunk c = c"
proof -
  from assms(1,2) obtain cs ov m where
    "chunk_words_loop (str_split t) cs ov m 0 [] = Some chunks"
    by (auto simp: chunk_text_def Let_def)
  from words_loop_clean[OF this] str_split_plain[of t] assms(3) show ?thesis by auto
qed

text \<open>
  What \<^verbatim>\<open>deduplicate_chunks\<close> does: it compares the hashes of the chunks as it is
  given them.  For every hash value \<open>k\<close>, the first chunk of the input with hash \<open>k\<close>
  is the first and only chunk of the output with hash \<open>k\<close>, and the output keeps the
  order of the input.  The chunks of the word method are already normalized, so on
  that path chunks that are equal after whitespace normalization are equal, and only
  the first is kept.
\<close>

lemma deduplicate_chunks_keeps_first_per_hash:
  "find (\<lambda>x. hash x = k) (deduplicate_chunks hash chunks) = find (\<lambda>x. hash x = k) chunks \<and>
   distinct (map hash (deduplicate_chunks hash chunks)) \<and>
   subseq (deduplicate_chunks hash chunks) chunks \<and>
   (or_str how (get (chunking_method cfg) ''words'') \<noteq> ''paragraphs'' \<and>
    chunk_text cfg t chunk_size overlap how min_chunk_words = Some chunks \<longrightarrow>
      map clean_chunk chunks = chunks)"
proof -
  have "map clean_chunk chunks = chunks"
    if "or_str how (get (chunking_method cfg) ''words'') \<noteq> ''paragraphs''"
      and "chunk_text cfg t chunk_size overlap how min_chunk_words = Some chunks"
    using word_chunks_are_clean[OF that] by (simp add: map_idI)
  then show ?thesis
    by (simp add: deduplicate_chunks_def dedup_loop_find dedup_loop_distinct dedup_loop_subseq)
qed

text \<open>
  C5 (with deduplication enabled, two chunks that are equal after whitespace
  normalization are duplicates, and only the first is kept): the code deduplicates
  before it normalizes.  \<^verbatim>\<open>"a  b"\<close> (two spaces) and \<^verbatim>\<open>"a b"\<close> are equal after
  normalization, yet \<^verbatim>\<open>deduplicate_chunks\<close> keeps both, even with a hash that never
  collides; applied to the normalized chunks it would keep one.  With the paragraph
  method such chunks reach the output of an ingestion run with deduplication enabled:
  the section of three paragraphs below yields the chunk \<^verbatim>\<open>"a b a b"\<close> twice.
\<close>

theorem whitespace_variants_both_kept:
  "clean_chunk ''a  b'' = clean_chunk ''a b'' \<and>
   deduplicate_chunks (\<lambda>s. s) [''a  b'', ''a b''] = [''a  b'', ''a b''] \<and>
   deduplicate_chunks (\<lambda>s. s) (map clean_chunk [''a  b'', ''a b'']) = [''a b''] \<and>
   get (parsing_deduplicate_chunks
     (empty_config\<lparr>chunking_chunk_size := Some 2, chunking_overlap := Some 1,
        chunking_method := Some ''paragraphs'', parsing_min_chunk_words := Some 1,
        parsing_min_section_words := Some 1\<rparr>)) True = True \<and>
   map_option fst
     (ingest_sections
        (empty_config\<lparr>chunking_chunk_size := Some 2, chunking_overlap := Some 1,
           chunking_method := Some ''paragraphs'', parsing_min_chunk_words := Some 1,
           parsing_min_section_words := Some 1\<rparr>)
        (\<lambda>s. s) ''book'' ''book.txt'' 0
        [(''Introduction'',
          [CHR ''a'', CHR 0x20, CHR 0x20, CHR ''b'', CHR 0x0A, CHR 0x0A,
           CHR ''a'', CHR 0x20, CHR ''b'', CHR 0x0A, CHR 0x0A,
           CHR ''a'', CHR 0x20, CHR 0x20, CHR ''b''])] ([], []))
     = Some [''a b a b'', ''a b a b'', ''a b'']"
  by code_simp

section \<open>Book ingestion: skipped sections\<close>








section \<open>Queries against the vector store\<close>

lemma py_get_in_set: "py_get xs i = Inr a \<Longrightarrow> a \<in> set xs"
  by (auto simp: py_get_def split: if_splits)

lemma query_loop_prefix:
  "query_loop metas zs h acc = (r, h') \<Longrightarrow> take (length h) h' = h"
proof (induction zs arbitrary: h acc)
  case Nil
  then show ?case by simp
next
  case (Cons z zs)
  obtain idx score where z: "z = (idx, score)" by (cases z)
  show ?case
  proof (cases "py_get metas idx")
    case (Inl e)
    with Cons.prems z show ?thesis by simp
  next
    case (Inr a)
    with Cons.prems z have
      "query_loop metas zs (h @ [dict_set (h ! a) ''score'' (VFloat score)]) (acc @ [length h]) = (r, h')"
      by (simp add: dict_copy_def dict_setitem_def)
    from Cons.IH[OF this] have "take (Suc (length h)) h' = h @ [dict_set (h ! a) ''score'' (VFloat score)]"
      by simp
    then have "take (length h) (take (Suc (length h)) h') = take (length h) (h @ [dict_set (h ! a) ''score'' (VFloat score)])"
      by simp
    then show ?thesis by (simp add: min_def)
  qed
qed

lemma query_loop_result:
  assumes "\<forall>a\<in>set metas. a < length h" "query_loop metas zs h acc = (Inr rs, h')"
  shows "\<exists>as. map (\<lambda>z. py_get metas (fst z)) zs = map Inr as \<and>
           rs = acc @ [length h..<length h + length zs] \<and>
           h' = h @ map (\<lambda>(a, z). dict_set (h ! a) ''score'' (VFloat (snd z))) (zip as zs)"
  using assms
proof (induction zs arbitrary: h acc)
  case Nil
  then show ?case by simp
next
  case (Cons z zs)
  obtain idx score where z: "z = (idx, score)" by (cases z)
  show ?case
  proof (cases "py_get metas idx")
    case (Inl e)
    with Cons.prems z show ?thesis by simp
  next
    case (Inr a)
    let ?d = "dict_set (h ! a) ''score'' (VFloat score)"
    let ?h2 = "h @ [?d]"
    from Inr Cons.prems z have run: "query_loop metas zs ?h2 (acc @ [length h]) = (Inr rs, h')"
      by (simp add: dict_copy_def dict_setitem_def)
    have wf2: "\<forall>a\<in>set metas. a < length ?h2" using Cons.prems(1) by auto
    from Cons.IH[OF wf2 run] obtain as where
      as: "map (\<lambda>z. py_get metas (fst z)) zs = map Inr as"
      and rs: "rs = (acc @ [length h]) @ [length ?h2..<length ?h2 + length zs]"
      and h': "h' = ?h2 @ map (\<lambda>(a, z). dict_set (?h2 ! a) ''score'' (VFloat (snd z))) (zip as zs)"
      by blast
    have "set as \<subseteq> set metas"
    proof
      fix b assume "b \<in> set as"
      then have "Inr b \<in> set (map (\<lambda>z. py_get metas (fst z)) zs)" using as by simp
      then obtain z' where "py_get metas (fst z') = Inr b" by auto
      then show "b \<in> set metas" by (rule py_get_in_set)
    qed
    then have lt: "\<forall>b\<in>set as. b < length h" using Cons.prems(1) by auto
    have m: "map (\<lambda>(a, z). dict_set (?h2 ! a) ''score'' (VFloat (snd z))) (zip as zs) =
             map (\<lambda>(a, z). dict_set (h ! a) ''score'' (VFloat (snd z))) (zip as zs)"
      using lt by (auto simp: nth_append dest: set_zip_leftD)
    have "[length h..<length h + length (z # zs)] = length h # [Suc (length h)..<Suc (length h) + length zs]"
      by (subst upt_conv_Cons) simp_all
    then have r2: "rs = acc @ [length h..<length h + length (z # zs)]"
      using rs by simp
    have "map (\<lambda>z. py_get metas (fst z)) (z # zs) = map Inr (a # as)"
      using as Inr z by simp
    moreover have "h' = h @ map (\<lambda>(a, z). dict_set (h ! a) ''score'' (VFloat (snd z))) (zip (a # as) (z # zs))"
      using h' m z by simp
    ultimately show ?thesis using r2 by blast
  qed
qed

lemma query_loop_length:
  "query_loop metas zs h acc = (Inr rs, h') \<Longrightarrow> length rs = length acc + length zs"
proof (induction zs arbitrary: h acc)
  case Nil
  then show ?case by simp
next
  case (Cons z zs)
  obtain idx score where z: "z = (idx, score)" by (cases z)
  show ?case
  proof (cases "py_get metas idx")
    case (Inl e)
    with Cons.prems z show ?thesis by simp
  next
    case (Inr a)
    with Cons.prems z obtain h2 where
      "query_loop metas zs h2 (acc @ [length h]) = (Inr rs, h')"
      by (simp add: dict_copy_def)
    from Cons.IH[OF this] show ?thesis by simp
  qed
qed

lemma length_search_row: "length (search_row ix q k) = k"
  by (simp add: search_row_def ranked_def min_def)

text \<open>A query fails before its loop and leaves the heap alone, or it runs the loop on
  exactly \<^verbatim>\<open>top_k\<close> pairs of a label and a distance.\<close>

lemma query_cases:
  assumes "query cfg text_embed self h query_text k = (r, h')"
  shows "(\<exists>e. r = Inl e \<and> h' = h) \<or>
         (\<exists>zs. length zs = nat (or_int k (get (search_top_k cfg) 5)) \<and>
               query_loop (metadata self) zs h [] = (r, h'))"
proof -
  let ?k = "or_int k (get (search_top_k cfg) 5)"
  show ?thesis
  proof (cases "text_embed query_text")
    case (Inl e)
    with assms show ?thesis by (auto simp: query_def)
  next
    case emb: (Inr emb)
    show ?thesis
    proof (cases "index self")
      case None
      with assms emb show ?thesis by (auto simp: query_def)
    next
      case (Some ix)
      show ?thesis
      proof (cases "search ix emb ?k")
        case (Inl e)
        with assms emb Some show ?thesis by (auto simp: query_def)
      next
        case (Inr DI)
        obtain D I where DI: "DI = (D, I)" by (cases DI)
        from Inr DI have D: "D = map (\<lambda>q. map fst (search_row ix q (nat ?k))) emb"
          and I: "I = map (\<lambda>q. map snd (search_row ix q (nat ?k))) emb"
          by (auto simp: search_def split: if_splits)
        show ?thesis
        proof (cases "py_get I 0")
          case (Inl e)
          with assms emb Some Inr DI show ?thesis by (auto simp: query_def)
        next
          case I0: (Inr I0)
          then have "I0 \<in> set I" by (rule py_get_in_set)
          then have lI: "length I0 = nat ?k" using I by (auto simp: length_search_row)
          show ?thesis
          proof (cases "py_get D 0")
            case (Inl e)
            with assms emb Some Inr DI I0 show ?thesis by (auto simp: query_def)
          next
            case D0: (Inr D0)
            then have "D0 \<in> set D" by (rule py_get_in_set)
            then have lD: "length D0 = nat ?k" using D by (auto simp: length_search_row)
            have "query_loop (metadata self) (zip I0 D0) h [] = (r, h')"
              using assms emb Some Inr DI I0 D0 by (simp add: query_def)
            moreover have "length (zip I0 D0) = nat ?k" using lI lD by simp
            ultimately show ?thesis by blast
          qed
        qed
      qed
    qed
  qed
qed

lemma query_returns_top_k_records:
  assumes "query cfg text_embed self h query_text k = (Inr rs, h')"
  shows "length rs = nat (or_int k (get (search_top_k cfg) 5))"
  using query_cases[OF assms] by (auto dest: query_loop_length)

text \<open>
  C9.  A text query changes no dictionary that existed before the call, so every
  stored metadata record is as it was.  Each returned record is a new dictionary, at
  an address that is not in the stored collection: a copy of a stored record with the
  \<^verbatim>\<open>score\<close> entry set.  (Addresses of the stored collection are assumed to point into
  the heap.)
\<close>

theorem query_leaves_stored_metadata_unchanged:
  assumes wf: "\<forall>a\<in>set (metadata self). a < length h"
    and run: "query cfg text_embed self h query_text k = (r, h')"
  shows "take (length h) h' = h \<and>
         (\<forall>b\<in>set (metadata self). h' ! b = h ! b) \<and>
         (\<forall>rs. r = Inr rs \<longrightarrow>
            (\<forall>a\<in>set rs. length h \<le> a \<and> a < length h' \<and> a \<notin> set (metadata self) \<and>
               (\<exists>b\<in>set (metadata self). \<exists>score.
                   h' ! a = dict_set (h ! b) ''score'' (VFloat score))))"
proof -
  have pre: "take (length h) h' = h"
    using query_cases[OF run] by (auto dest: query_loop_prefix)
  have stored: "\<forall>b\<in>set (metadata self). h' ! b = h ! b"
  proof
    fix b assume "b \<in> set (metadata self)"
    then have "b < length h" using wf by simp
    then have "take (length h) h' ! b = h' ! b" by simp
    then show "h' ! b = h ! b" using pre by simp
  qed
  have res: "\<forall>a\<in>set rs. length h \<le> a \<and> a < length h' \<and> a \<notin> set (metadata self) \<and>
               (\<exists>b\<in>set (metadata self). \<exists>score.
                   h' ! a = dict_set (h ! b) ''score'' (VFloat score))" if r: "r = Inr rs" for rs
  proof
    fix a assume a: "a \<in> set rs"
    from query_cases[OF run] r obtain zs where
      "query_loop (metadata self) zs h [] = (Inr rs, h')" by auto
    from query_loop_result[OF wf this] obtain as where
      as: "map (\<lambda>z. py_get (metadata self) (fst z)) zs = map Inr as"
      and rs: "rs = [length h..<length h + length zs]"
      and h': "h' = h @ map (\<lambda>(a, z). dict_set (h ! a) ''score'' (VFloat (snd z))) (zip as zs)"
      by auto
    have len: "length as = length zs" using as by (metis length_map)
    from a rs obtain i where i: "a = length h + i" "i < length zs"
      by (auto simp: nat_le_iff_add)
    have "py_get (metadata self) (fst (zs ! i)) = Inr (as ! i)"
      using as i len by (metis nth_map)
    then have mem: "as ! i \<in> set (metadata self)" by (rule py_get_in_set)
    have "h' ! a = dict_set (h ! (as ! i)) ''score'' (VFloat (snd (zs ! i)))"
      using i len by (simp add: h' nth_append)
    moreover have "length h \<le> a" "a < length h'" using i len by (simp_all add: h')
    moreover have "a \<notin> set (metadata self)" using wf i by auto
    ultimately show "length h \<le> a \<and> a < length h' \<and> a \<notin> set (metadata self) \<and>
               (\<exists>b\<in>set (metadata self). \<exists>score.
                   h' ! a = dict_set (h ! b) ''score'' (VFloat score))"
      using mem by blast
  qed
  from pre stored res show ?thesis by blast
qed

lemma ex_query_good:
  "query empty_config ex_embed ex_store ex_heap ''good'' (Some 1) =
     (Inr [2], ex_heap @ [dict_set (ex_heap ! 1) ''score'' (VFloat 0)])"
  by code_simp

theorem query_leaves_stored_metadata_unchanged_witness:
  "query empty_config ex_embed ex_store ex_heap ''good'' (Some 1) =
     (Inr [2], ex_heap @ [dict_set (ex_heap ! 1) ''score'' (VFloat 0)]) \<and>
   take (length ex_heap) (ex_heap @ [dict_set (ex_heap ! 1) ''score'' (VFloat 0)]) = ex_heap \<and>
   dict_get (ex_heap ! 1) ''score'' = VNone \<and>
   dict_get ((ex_heap @ [dict_set (ex_heap ! 1) ''score'' (VFloat 0)]) ! 2) ''score'' = VFloat 0"
proof -
  have wf: "\<forall>a\<in>set (metadata ex_store). a < length ex_heap"
    by (simp add: ex_store_def ex_heap_def)
  from query_leaves_stored_metadata_unchanged[OF wf ex_query_good]
  have "take (length ex_heap) (ex_heap @ [dict_set (ex_heap ! 1) ''score'' (VFloat 0)]) = ex_heap"
    by blast
  then show ?thesis
    using ex_query_good by (simp add: ex_heap_def book_metadata_def dict_get_def)
qed

lemma query_loop_succeeds:
  assumes "\<forall>z\<in>set zs. 0 \<le> fst z \<and> fst z < int (length metas)"
  shows "\<exists>rs h'. query_loop metas zs h acc = (Inr rs, h')"
  using assms
proof (induction zs arbitrary: h acc)
  case Nil
  show ?case by simp
next
  case (Cons z zs)
  obtain idx score where z: "z = (idx, score)" by (cases z)
  with Cons.prems have "0 \<le> idx" "idx < int (length metas)" by auto
  then have "py_get metas idx = Inr (metas ! nat idx)" by (simp add: py_get_def)
  moreover have "\<forall>z\<in>set zs. 0 \<le> fst z \<and> fst z < int (length metas)" using Cons.prems by simp
  ultimately show ?case using Cons.IH z by (simp add: dict_copy_def)
qed

lemma ranked_props:
  "length (ranked ix q) = length (index_xb ix)"
  "sorted (map fst (ranked ix q))"
  "distinct (map snd (ranked ix q))"
  "set (ranked ix q) = (\<lambda>j. (l2sqr q (index_xb ix ! j), int j)) ` {0..<length (index_xb ix)}"
proof -
  let ?n = "length (index_xb ix)"
  let ?ps = "zip (map (l2sqr q) (index_xb ix)) (map int [0..<?n])"
  show "length (ranked ix q) = ?n" by (simp add: ranked_def)
  show "sorted (map fst (ranked ix q))" by (simp add: ranked_def)
  have "mset (map snd (ranked ix q)) = image_mset snd (mset ?ps)"
    unfolding ranked_def mset_map by (simp only: mset_sort)
  also have "\<dots> = mset (map snd ?ps)" by (simp only: mset_map)
  finally have "mset (map snd (ranked ix q)) = mset (map snd ?ps)" .
  moreover have "map snd ?ps = map int [0..<?n]" by simp
  moreover have "distinct (map int [0..<?n])" by (simp add: distinct_map)
  ultimately show "distinct (map snd (ranked ix q))"
    by (metis mset_eq_imp_distinct_iff)
  have "set (ranked ix q) = set ?ps" by (simp add: ranked_def)
  also have "?ps = map (\<lambda>j. (l2sqr q (index_xb ix ! j), int j)) [0..<?n]"
    by (rule nth_equalityI) simp_all
  also have "set \<dots> = (\<lambda>j. (l2sqr q (index_xb ix ! j), int j)) ` {0..<?n}"
    by simp
  finally show "set (ranked ix q) = (\<lambda>j. (l2sqr q (index_xb ix ! j), int j)) ` {0..<?n}" .
qed

text \<open>
  What holds of a query for no more records than are stored: on a store whose
  metadata list is as long as its index, a query for \<open>1 \<le> k \<le> n\<close> records returns
  \<open>k\<close> new records, copies of the stored records of \<open>k\<close> distinct vectors with the
  squared distance as score, in ascending order of distance, and no other stored
  vector is nearer than a returned one.
\<close>

lemma query_returns_nearest_records:
  assumes ix: "index self = Some ix"
    and emb: "text_embed query_text = Inr [v]" "length v = index_d ix"
    and aligned: "length (metadata self) = length (index_xb ix)"
    and wf: "\<forall>a\<in>set (metadata self). a < length h"
    and kk: "kk = or_int k (get (search_top_k cfg) 5)" "0 < kk" "nat kk \<le> length (index_xb ix)"
  shows "\<exists>rs h' labels.
           query cfg text_embed self h query_text k = (Inr rs, h') \<and>
           length labels = nat kk \<and> distinct labels \<and>
           (\<forall>j\<in>set labels. j < length (index_xb ix)) \<and>
           sorted (map (\<lambda>j. l2sqr v (index_xb ix ! j)) labels) \<and>
           (\<forall>j<length (index_xb ix). j \<notin> set labels \<longrightarrow>
              (\<forall>i\<in>set labels. l2sqr v (index_xb ix ! i) \<le> l2sqr v (index_xb ix ! j))) \<and>
           map (\<lambda>a. h' ! a) rs =
             map (\<lambda>j. dict_set (h ! (metadata self ! j)) ''score''
                        (VFloat (l2sqr v (index_xb ix ! j)))) labels"
proof -
  let ?n = "length (index_xb ix)"
  let ?dist = "\<lambda>j. l2sqr v (index_xb ix ! j)"
  define R where "R = ranked ix v"
  define T where "T = take (nat kk) R"
  define labels where "labels = map (\<lambda>p. nat (snd p)) T"
  define zs where "zs = zip (map snd T) (map fst T)"
  have lenR: "length R = ?n" and sortedR: "sorted (map fst R)"
    and distR: "distinct (map snd R)"
    and setR: "set R = (\<lambda>j. (?dist j, int j)) ` {0..<?n}"
    unfolding R_def by (rule ranked_props)+
  have lenT: "length T = nat kk" using kk(3) lenR by (simp add: T_def)
  have row: "search_row ix v (nat kk) = T"
    using kk(3) lenR by (simp add: search_row_def T_def R_def[symmetric])
  have T_el: "\<exists>j<?n. p = (?dist j, int j)" if "p \<in> set T" for p
  proof -
    from that have "p \<in> set R" unfolding T_def by (rule in_set_takeD)
    with setR show ?thesis by auto
  qed
  have srch: "search ix [v] kk = Inr ([map fst T], [map snd T])"
    using kk(2) emb(2) by (simp add: search_def row)
  have q: "query cfg text_embed self h query_text k = query_loop (metadata self) zs h []"
    using ix emb(1) srch by (simp add: query_def kk(1)[symmetric] py_get_def zs_def)
  have zs_map: "zs = map (\<lambda>p. (snd p, fst p)) T"
    unfolding zs_def by (induction T) auto
  have "\<forall>z\<in>set zs. 0 \<le> fst z \<and> fst z < int (length (metadata self))"
  proof
    fix z assume "z \<in> set zs"
    then obtain p where p: "p \<in> set T" "z = (snd p, fst p)" by (auto simp: zs_map)
    from T_el[OF p(1)] obtain j where "j < ?n" "p = (?dist j, int j)" by blast
    with p(2) aligned show "0 \<le> fst z \<and> fst z < int (length (metadata self))" by simp
  qed
  from query_loop_succeeds[OF this] obtain rs h' where
    run: "query_loop (metadata self) zs h [] = (Inr rs, h')" by blast
  from query_loop_result[OF wf run] obtain as where
    as: "map (\<lambda>z. py_get (metadata self) (fst z)) zs = map Inr as"
    and rs: "rs = [length h..<length h + length zs]"
    and h': "h' = h @ map (\<lambda>(a, z). dict_set (h ! a) ''score'' (VFloat (snd z))) (zip as zs)"
    by auto
  have lenzs: "length zs = nat kk" using lenT by (simp add: zs_map)
  have lenas: "length as = nat kk" using as lenzs by (metis length_map)
  have el: "\<exists>j<?n. T ! i = (?dist j, int j) \<and> labels ! i = j \<and> as ! i = metadata self ! j"
    if i: "i < nat kk" for i
  proof -
    from i lenT have "T ! i \<in> set T" by simp
    from T_el[OF this] obtain j where j: "j < ?n" "T ! i = (?dist j, int j)" by blast
    have "py_get (metadata self) (fst (zs ! i)) = Inr (as ! i)"
      using as i lenzs lenas by (metis nth_map)
    moreover have "zs ! i = (int j, ?dist j)" using i lenT j by (simp add: zs_map)
    ultimately have "as ! i = metadata self ! j"
      using j aligned by (simp add: py_get_def)
    moreover have "labels ! i = j" using i lenT j by (simp add: labels_def)
    ultimately show ?thesis using j by blast
  qed
  have l1: "length labels = nat kk" using lenT by (simp add: labels_def)
  have l2: "\<forall>j\<in>set labels. j < ?n"
  proof
    fix j assume "j \<in> set labels"
    then obtain p where p: "p \<in> set T" "j = nat (snd p)" by (auto simp: labels_def)
    from T_el[OF p(1)] p(2) show "j < ?n" by auto
  qed
  have "distinct (map snd T)"
    unfolding T_def take_map[symmetric] using distR by (rule distinct_take)
  moreover have "inj_on nat (set (map snd T))"
  proof (rule inj_onI)
    fix x y assume x: "x \<in> set (map snd T)" and y: "y \<in> set (map snd T)" and e: "nat x = nat y"
    from x obtain p where "p \<in> set T" "x = snd p" by auto
    with T_el[of p] have "0 \<le> x" by auto
    moreover from y obtain p' where "p' \<in> set T" "y = snd p'" by auto
    with T_el[of p'] have "0 \<le> y" by auto
    ultimately show "x = y" using e by simp
  qed
  ultimately have "distinct (map nat (map snd T))" by (subst distinct_map) blast
  then have l3: "distinct labels" by (simp add: labels_def comp_def)
  have d_eq: "map ?dist labels = map fst T"
  proof (rule nth_equalityI)
    show "length (map ?dist labels) = length (map fst T)" using l1 lenT by simp
  next
    fix i assume "i < length (map ?dist labels)"
    then have i: "i < nat kk" using l1 by simp
    from el[OF i] show "map ?dist labels ! i = map fst T ! i"
      using i l1 lenT by auto
  qed
  have "sorted (take (nat kk) (map fst R))" using sortedR by (rule sorted_wrt_take)
  then have l4: "sorted (map ?dist labels)" by (simp add: d_eq T_def take_map)
  have l5: "\<forall>j<?n. j \<notin> set labels \<longrightarrow> (\<forall>i\<in>set labels. ?dist i \<le> ?dist j)"
  proof (intro allI impI ballI)
    fix j i assume j: "j < ?n" and nj: "j \<notin> set labels" and iL: "i \<in> set labels"
    have "(?dist j, int j) \<in> set R" using j setR by auto
    moreover have "(?dist j, int j) \<notin> set T"
    proof
      assume "(?dist j, int j) \<in> set T"
      then have "nat (snd (?dist j, int j)) \<in> (\<lambda>p. nat (snd p)) ` set T" by (rule imageI)
      then have "j \<in> set labels" by (simp add: labels_def)
      with nj show False by simp
    qed
    moreover have "set R = set T \<union> set (drop (nat kk) R)"
      unfolding T_def by (metis append_take_drop_id set_append)
    ultimately have dj: "(?dist j, int j) \<in> set (drop (nat kk) R)" by blast
    from iL obtain p where p: "p \<in> set T" "i = nat (snd p)" by (auto simp: labels_def)
    from T_el[OF p(1)] p(2) have pi: "p = (?dist i, int i)" by auto
    have "sorted (map fst (T @ drop (nat kk) R))" using sortedR by (simp add: T_def)
    then have "\<forall>x\<in>set T. \<forall>y\<in>set (drop (nat kk) R). fst x \<le> fst y"
      by (auto simp: sorted_append)
    with p(1) dj pi show "?dist i \<le> ?dist j" by fastforce
  qed
  have l6: "map (\<lambda>a. h' ! a) rs =
             map (\<lambda>j. dict_set (h ! (metadata self ! j)) ''score'' (VFloat (?dist j))) labels"
  proof (rule nth_equalityI)
    show "length (map (\<lambda>a. h' ! a) rs) =
          length (map (\<lambda>j. dict_set (h ! (metadata self ! j)) ''score'' (VFloat (?dist j))) labels)"
      using rs lenzs l1 by simp
  next
    fix i assume "i < length (map (\<lambda>a. h' ! a) rs)"
    then have i: "i < nat kk" using rs lenzs by simp
    from el[OF i] obtain j where j: "j < ?n" "T ! i = (?dist j, int j)" "labels ! i = j"
      "as ! i = metadata self ! j" by blast
    have "zs ! i = (int j, ?dist j)" using i lenT j by (simp add: zs_map)
    then have "h' ! (length h + i) = dict_set (h ! (metadata self ! j)) ''score'' (VFloat (?dist j))"
      using i lenzs lenas j by (simp add: h' nth_append)
    then show "map (\<lambda>a. h' ! a) rs ! i =
          map (\<lambda>j. dict_set (h ! (metadata self ! j)) ''score'' (VFloat (?dist j))) labels ! i"
      using i rs lenzs l1 j by simp
  qed
  from q run l1 l2 l3 l4 l5 l6 show ?thesis by auto
qed

text \<open>
  C2 (a query with result count \<open>k\<close> above the number \<open>n\<close> of indexed records
  returns exactly the \<open>n\<close> records): the code returns \<open>k\<close> records.  The loop of
  \<^verbatim>\<open>query\<close> runs over every label the search returns, and the label \<open>-1\<close> of a
  missing neighbour indexes the metadata list from its end.  Against the two-record
  store, \<open>top_k = 3\<close> gives three records: the two stored ones by distance, then the
  last stored record once more with the largest float as its score.
\<close>

theorem query_top_k_beyond_index_size:
  "query empty_config ex_embed ex_store ex_heap ''good'' (Some 3) =
     (Inr [2, 3, 4],
      ex_heap @ [dict_set (ex_heap ! 1) ''score'' (VFloat 0),
                 dict_set (ex_heap ! 0) ''score'' (VFloat 1),
                 dict_set (ex_heap ! 1) ''score'' (VFloat FLT_MAX)]) \<and>
   length (index_xb (the (index ex_store))) = 2 \<and> length (metadata ex_store) = 2"
  by code_simp

text \<open>
  C7.  When transcription of the audio file yields the transcript, the audio query of
  the vector store is the text query with that transcript, result list and heap
  alike; and so a retriever in audio mode returns for the file what a retriever in
  text mode over the same store returns for the transcript.
\<close>

theorem audio_query_is_text_query_of_transcript:
  assumes "transcribe_audio audio_path (get (audio_whisper_model cfg) ''base'') = Inr transcript"
    and "mode audio_retriever = ''audio''" and "mode text_retriever \<noteq> ''audio''"
    and "vs audio_retriever = vs text_retriever"
    and "top_k audio_retriever = top_k text_retriever"
  shows "query_audio cfg transcribe_audio text_embed self h audio_path k =
           query cfg text_embed self h transcript k \<and>
         get_relevant_documents cfg transcribe_audio text_embed audio_retriever h audio_path =
           get_relevant_documents cfg transcribe_audio text_embed text_retriever h transcript"
  using assms by (simp add: query_audio_def get_relevant_documents_def)

theorem audio_query_is_text_query_of_transcript_witness:
  "query_audio empty_config (\<lambda>path model. Inr ''good'') ex_embed ex_store ex_heap
       ''question.wav'' (Some 1) =
     (Inr [2], ex_heap @ [dict_set (ex_heap ! 1) ''score'' (VFloat 0)]) \<and>
   get_relevant_documents empty_config (\<lambda>path model. Inr ''good'') ex_embed
       \<lparr>vs = ex_store, mode = ''audio'', top_k = Some 1\<rparr> ex_heap ''question.wav'' =
     get_relevant_documents empty_config (\<lambda>path model. Inr ''good'') ex_embed
       \<lparr>vs = ex_store, mode = ''text'', top_k = Some 1\<rparr> ex_heap ''good''"
  using audio_query_is_text_query_of_transcript[of "\<lambda>path model. Inr ''good''"
      "''question.wav''" empty_config "''good''"
      "\<lparr>vs = ex_store, mode = ''audio'', top_k = Some 1\<rparr>"
      "\<lparr>vs = ex_store, mode = ''text'', top_k = Some 1\<rparr>"
      ex_embed ex_store ex_heap "Some 1"]
  by (simp add: ex_query_good)

section \<open>Building the index\<close>

lemma embed_loop_length_le:
  "length (embed_loop text_embed audio_embed h zs embeddings) \<le> length embeddings + length zs"
proof (induction zs arbitrary: embeddings)
  case Nil
  show ?case by simp
next
  case (Cons z zs)
  obtain chunk meta where z: "z = (chunk, meta)" by (cases z)
  show ?case unfolding z
    using Cons[of embeddings] Cons[of "embeddings @ [x]" for x]
    by (auto split: sum.splits simp: le_Suc_eq)
qed

lemma embed_loop_drops_failed:
  assumes "(chunk, meta) \<in> set zs"
    and "(if dict_get (h ! meta) ''source_type'' = VStr ''audio_clap''
          then audio_embed chunk else text_embed chunk) = Inl e"
  shows "length (embed_loop text_embed audio_embed h zs embeddings) < length embeddings + length zs"
  using assms(1)
proof (induction zs arbitrary: embeddings)
  case Nil
  then show ?case by simp
next
  case (Cons z zs)
  obtain c m where z: "z = (c, m)" by (cases z)
  show ?case
  proof (cases "z = (chunk, meta)")
    case True
    then show ?thesis using assms(2) embed_loop_length_le[of text_embed audio_embed h zs embeddings]
      by (auto simp: le_imp_less_Suc)
  next
    case False
    with Cons.prems have "(chunk, meta) \<in> set zs" by simp
    from Cons.IH[OF this] show ?thesis unfolding z
      using Cons.IH[OF \<open>(chunk, meta) \<in> set zs\<close>, of "embeddings @ [x]" for x]
      by (auto split: sum.splits simp: less_Suc_eq)
  qed
qed

lemma build_keeps_every_metadata_record:
  assumes "build text_embed audio_embed self h (Inr (chunks, metas)) = Inr self'"
  shows "metadata self' = metas \<and>
         (\<exists>ix. index self' = Some ix \<and>
            index_xb ix = embed_loop text_embed audio_embed h (zip chunks metas) [])"
proof -
  let ?E = "embed_loop text_embed audio_embed h (zip chunks metas) []"
  from assms have ne: "?E \<noteq> []" by (auto simp: build_def Let_def split: if_splits)
  with assms obtain m where m: "np_stack ?E = Inr m"
    and self': "self' = self\<lparr>index := Some \<lparr>index_d = length (hd m), index_xb = m\<rparr>,
                              metadata := metas\<rparr>"
    by (auto simp: build_def Let_def split: sum.splits)
  from m have "m = ?E" by (auto simp: np_stack_def split: list.splits if_splits)
  with self' show ?thesis by simp
qed

text \<open>
  C1 (after a build in which some embedding succeeds, vectors and metadata are
  aligned, a chunk whose embedding fails being dropped from both): the code drops the
  failed chunk's vector only and stores the whole metadata list.  With the chunks
  \<^verbatim>\<open>"bad"\<close>, whose embedding raises, and \<^verbatim>\<open>"good"\<close>, the build succeeds with one vector
  and two metadata records; a query on the built store for \<^verbatim>\<open>"good"\<close> then returns,
  at distance 0, a copy of the record of \<^verbatim>\<open>"bad"\<close>.
\<close>

theorem build_drops_vector_but_keeps_metadata:
  "build ex_embed (AudioEmbedder_embed (\<lambda>path. Inl OSError) 2) \<lparr>index = None, metadata = []\<rparr>
       ex_heap_bad (Inr ([''bad'', ''good''], [0, 1])) =
     Inr \<lparr>index = Some \<lparr>index_d = 2, index_xb = [[4, 0]]\<rparr>, metadata = [0, 1]\<rparr> \<and>
   length [[4, 0 :: real]] = 1 \<and> length [0, 1 :: addr] = 2 \<and>
   query empty_config ex_embed
       \<lparr>index = Some \<lparr>index_d = 2, index_xb = [[4, 0]]\<rparr>, metadata = [0, 1]\<rparr>
       ex_heap_bad ''good'' (Some 1) =
     (Inr [2], ex_heap_bad @ [dict_set (ex_heap_bad ! 0) ''score'' (VFloat 0)]) \<and>
   dict_get (ex_heap_bad ! 0) ''text'' = VStr ''bad''"
  by code_simp

section \<open>The retriever's results\<close>

text \<open>
  C8.  Whatever the mode, when the store's query raises, the retriever returns the
  empty document list; when it returns records, the retriever returns one document
  per record, in order, each holding the record and, as content, the record's text
  (the empty string when the text is \<^verbatim>\<open>None\<close>).
\<close>

theorem retriever_returns_documents_or_empty:
  fixes self :: VoxarchRetriever and cfg transcribe_audio text_embed h q
  defines "call \<equiv>
    (if mode self = ''audio''
     then query_audio cfg transcribe_audio text_embed (vs self) h q (Some (or_int (top_k self) 5))
     else query cfg text_embed (vs self) h q (Some (or_int (top_k self) 5)))"
  shows "(\<forall>e. fst call = Inl e \<longrightarrow>
            get_relevant_documents cfg transcribe_audio text_embed self h q = ([], snd call)) \<and>
         (\<forall>results. fst call = Inr results \<longrightarrow>
            (\<exists>docs. get_relevant_documents cfg transcribe_audio text_embed self h q
                       = (docs, snd call) \<and>
               map doc_metadata docs = results \<and>
               (\<forall>i<length results.
                  (\<forall>s. dict_get (snd call ! (results ! i)) ''text'' = VStr s \<longrightarrow>
                       page_content (docs ! i) = VStr s) \<and>
                  (dict_get (snd call ! (results ! i)) ''text'' = VNone \<longrightarrow>
                       page_content (docs ! i) = VStr []))))"
proof -
  obtain r h' where call: "call = (r, h')" by (cases call)
  have g: "get_relevant_documents cfg transcribe_audio text_embed self h q =
             (case r of Inl e \<Rightarrow> ([], h')
              | Inr results \<Rightarrow>
                  (map (\<lambda>meta. \<lparr>page_content = py_or (dict_get (h' ! meta) ''text'') (VStr []),
                                doc_metadata = meta\<rparr>) results, h'))"
    using call unfolding call_def get_relevant_documents_def Let_def
    by (simp split: sum.splits)
  show ?thesis
  proof (cases r)
    case (Inl e)
    with g call show ?thesis by simp
  next
    case (Inr results)
    define docs where "docs = map (\<lambda>meta.
        \<lparr>page_content = py_or (dict_get (h' ! meta) ''text'') (VStr []),
         doc_metadata = meta\<rparr>) results"
    have 1: "get_relevant_documents cfg transcribe_audio text_embed self h q = (docs, snd call)"
      using g Inr call by (simp add: docs_def)
    have 2: "map doc_metadata docs = results" by (simp add: docs_def comp_def)
    have 3: "\<forall>i<length results.
                  (\<forall>s. dict_get (snd call ! (results ! i)) ''text'' = VStr s \<longrightarrow>
                       page_content (docs ! i) = VStr s) \<and>
                  (dict_get (snd call ! (results ! i)) ''text'' = VNone \<longrightarrow>
                       page_content (docs ! i) = VStr [])"
      using call by (auto simp: docs_def py_or_def)
    from 1 2 3 Inr call show ?thesis by auto
  qed
qed

theorem retriever_returns_documents_or_empty_witness:
  "get_relevant_documents empty_config (\<lambda>path model. Inl TranscriptionError) ex_embed
       \<lparr>vs = ex_store, mode = ''audio'', top_k = Some 1\<rparr> ex_heap ''question.wav'' = ([], ex_heap) \<and>
   get_relevant_documents empty_config (\<lambda>path model. Inl TranscriptionError) ex_embed
       \<lparr>vs = ex_store, mode = ''text'', top_k = Some 1\<rparr> ex_heap ''good'' =
     ([\<lparr>page_content = VStr ''good'', doc_metadata = 2\<rparr>],
      ex_heap @ [dict_set (ex_heap ! 1) ''score'' (VFloat 0)])"
proof -
  have a: "fst (query_audio empty_config (\<lambda>path model. Inl TranscriptionError) ex_embed ex_store
             ex_heap ''question.wav'' (Some 1)) = Inl TranscriptionError"
       "snd (query_audio empty_config (\<lambda>path model. Inl TranscriptionError) ex_embed ex_store
             ex_heap ''question.wav'' (Some 1)) = ex_heap"
    by (simp_all add: query_audio_def)
  have 1: "get_relevant_documents empty_config (\<lambda>path model. Inl TranscriptionError) ex_embed
       \<lparr>vs = ex_store, mode = ''audio'', top_k = Some 1\<rparr> ex_heap ''question.wav'' = ([], ex_heap)"
    using retriever_returns_documents_or_empty[of "\<lparr>vs = ex_store, mode = ''audio'', top_k = Some 1\<rparr>"
        empty_config "\<lambda>path model. Inl TranscriptionError" ex_embed ex_heap "''question.wav''"] a
    by (simp add: or_int_def)
  have 2: "get_relevant_documents empty_config (\<lambda>path model. Inl TranscriptionError) ex_embed
       \<lparr>vs = ex_store, mode = ''text'', top_k = Some 1\<rparr> ex_heap ''good'' =
     ([\<lparr>page_content = VStr ''good'', doc_metadata = 2\<rparr>],
      ex_heap @ [dict_set (ex_heap ! 1) ''score'' (VFloat 0)])"
    by code_simp
  from 1 2 show ?thesis by simp
qed

end
